theory Spec2Isabelle
  imports Main "HOL-Library.Char_ord" "HOL-Library.List_Lexorder" "HOL-Library.Sublist"
    "HOL-Library.AList"
begin

section \<open>Python values and text operations used by bib_demand.py\<close>

text \<open>
  Python text is modelled as \<^typ>\<open>string\<close>; a character stands for the code point of the
  same number (0 to 255). A dictionary value is either Python's \<open>None\<close> or a text.
  Every exception the modelled code can raise is a constructor of \<open>error\<close>, and a
  function that can raise returns \<open>error + 'a\<close> with \<open>Inl\<close> for the exception.
\<close>

datatype pyval = PNone | PStr string

datatype error = AttributeError | IndexError | ValueError | InvalidDataTypeError

text \<open>\<open>str.isspace\<close> on one character: tab to carriage return, the four separators
  0x1C to 0x1F, the blank, NEL (0x85) and the no-break space (0xA0). The same set is what
  the regular expression classes \<open>\s\<close> and \<open>\S\<close> use on text patterns.\<close>

definition isspace :: "char \<Rightarrow> bool" where
  "isspace c =
     (let n = (of_char c :: nat)
      in (9 \<le> n \<and> n \<le> 13) \<or> (28 \<le> n \<and> n \<le> 32) \<or> n = 133 \<or> n = 160)"

definition lstrip :: "string \<Rightarrow> string" where
  "lstrip s = dropWhile isspace s"

definition rstrip :: "string \<Rightarrow> string" where
  "rstrip s = rev (dropWhile isspace (rev s))"

definition strip :: "string \<Rightarrow> string" where
  "strip s = rstrip (lstrip s)"

definition startswith :: "string \<Rightarrow> string \<Rightarrow> bool" where
  "startswith s p = (take (length p) s = p)"

text \<open>\<open>s.replace(old, new)\<close>: every occurrence, scanned from the left without overlap.
  For an empty \<open>old\<close> Python puts \<open>new\<close> before every character and at the end.\<close>

function replace :: "string \<Rightarrow> string \<Rightarrow> string \<Rightarrow> string" where
  "replace old new s =
     (if old = [] then new @ concat (map (\<lambda>c. c # new) s)
      else if s = [] then []
      else if startswith s old then new @ replace old new (drop (length old) s)
      else hd s # replace old new (tl s))"
  by pat_completeness auto
termination
  by (relation "measure (\<lambda>(old, new, s). length s)") auto

declare replace.simps [simp del]

text \<open>\<open>s.replace(old, new, 1)\<close>: the first occurrence only.\<close>

fun replace1 :: "string \<Rightarrow> string \<Rightarrow> string \<Rightarrow> string" where
  "replace1 old new [] = (if old = [] then new else [])"
| "replace1 old new (c # cs) =
     (if startswith (c # cs) old then new @ drop (length old) (c # cs)
      else c # replace1 old new cs)"

text \<open>\<open>sep.join(xs)\<close>.\<close>

fun join :: "string \<Rightarrow> string list \<Rightarrow> string" where
  "join sep [] = []"
| "join sep [x] = x"
| "join sep (x # y # ys) = x @ sep @ join sep (y # ys)"

text \<open>\<open>s.split(c)\<close> for a separator of one character: never an empty list.\<close>

fun split_char :: "char \<Rightarrow> string \<Rightarrow> string list" where
  "split_char c [] = [[]]"
| "split_char c (x # xs) =
     (if x = c then [] # split_char c xs
      else (case split_char c xs of w # ws \<Rightarrow> (x # w) # ws | [] \<Rightarrow> [[x]]))"

text \<open>\<open>f.readlines()\<close> on the text of a file: every line keeps its line break, the
  last line has one only if the file ends with one, and the empty file has no line.\<close>

fun readlines :: "string \<Rightarrow> string list" where
  "readlines [] = []"
| "readlines (x # xs) =
     (if x = CHR 0x0A then [x] # readlines xs
      else (case readlines xs of w # ws \<Rightarrow> (x # w) # ws | [] \<Rightarrow> [[x]]))"

text \<open>\<open>str(n)\<close> for a length: the decimal digits.\<close>

fun str_nat :: "nat \<Rightarrow> string" where
  "str_nat n =
     (if n < 10 then [char_of (48 + n)] else str_nat (n div 10) @ [char_of (48 + n mod 10)])"

declare str_nat.simps [simp del]

section \<open>LitItem\<close>

text \<open>The object has one attribute, the dictionary \<open>data\<close> from tags to values.\<close>

record LitItem =
  data :: "string \<rightharpoonup> pyval"

text \<open>\<open>d.get(k, default)\<close>.\<close>

definition dict_get :: "(string \<rightharpoonup> pyval) \<Rightarrow> string \<Rightarrow> pyval \<Rightarrow> pyval" where
  "dict_get d k dflt = (case d k of None \<Rightarrow> dflt | Some v \<Rightarrow> v)"

text \<open>\<open>v.replace('\n', ' ').strip()\<close>: a method call on \<open>None\<close> raises AttributeError.\<close>

definition collapse :: "pyval \<Rightarrow> error + string" where
  "collapse v =
     (case v of PNone \<Rightarrow> Inl AttributeError
      | PStr s \<Rightarrow> Inr (strip (replace ''\<newline>'' '' '' s)))"

text \<open>The same normalisation in the words of the specification: every line break
  becomes a blank, then the text is trimmed. \<open>collapse_PStr\<close> below shows that
  \<open>collapse\<close> computes it.\<close>

definition newlines_to_spaces :: "string \<Rightarrow> string" where
  "newlines_to_spaces s = map (\<lambda>c. if c = CHR 0x0A then CHR '' '' else c) s"

definition get_title :: "LitItem \<Rightarrow> error + string" where
  "get_title self = collapse (dict_get (data self) ''T1'' (PStr ''kein Titel''))"

definition get_year :: "LitItem \<Rightarrow> string" where
  "get_year self =
     (case dict_get (data self) ''PY'' (PStr ''kein Jahr'') of
        PNone \<Rightarrow> ''kein Jahr''
      | PStr year \<Rightarrow>
          if year = [] then ''kein Jahr''
          else strip (replace '']'' [] (replace ''['' [] year)))"

definition get_author :: "LitItem \<Rightarrow> error + string" where
  "get_author self =
     (case collapse (dict_get (data self) ''A1'' (PStr [])) of
        Inl e \<Rightarrow> Inl e
      | Inr author \<Rightarrow>
          if author = [] then collapse (dict_get (data self) ''A2'' (PStr ''kein Autor''))
          else Inr author)"

text \<open>\<open>__eq__\<close>: the titles are computed first, the years only when the titles agree;
  \<open>get_year\<close> never raises, so the order of the two does not show.\<close>

definition litem_eq :: "LitItem \<Rightarrow> LitItem \<Rightarrow> error + bool" where
  "litem_eq self other =
     (case get_title self of
        Inl e \<Rightarrow> Inl e
      | Inr t1 \<Rightarrow>
          (case get_title other of
             Inl e \<Rightarrow> Inl e
           | Inr t2 \<Rightarrow> Inr (t1 = t2 \<and> get_year self = get_year other)))"

text \<open>\<open>__str__\<close>: the arguments of \<open>format\<close> are evaluated in the order author, title,
  year.\<close>

definition litem_str :: "LitItem \<Rightarrow> error + string" where
  "litem_str self =
     (case get_author self of
        Inl e \<Rightarrow> Inl e
      | Inr a \<Rightarrow>
          (case get_title self of
             Inl e \<Rightarrow> Inl e
           | Inr t \<Rightarrow>
               Inr (a @ ''\<newline>'' @ t @ ''\<newline>'' @ get_year self @ ''\<newline>'')))"

text \<open>\<open>get_relevant\<close>: the dictionary with the keys \<open>author\<close>, \<open>title\<close> and \<open>year\<close>,
  as the triple of its values in that order (the order in which they are computed).\<close>

definition get_relevant :: "LitItem \<Rightarrow> error + (string \<times> string \<times> string)" where
  "get_relevant self =
     (case get_author self of
        Inl e \<Rightarrow> Inl e
      | Inr a \<Rightarrow>
          (case get_title self of
             Inl e \<Rightarrow> Inl e
           | Inr t \<Rightarrow> Inr (a, t, get_year self)))"

text \<open>\<open>__extract_tricat\<close>: the working dictionary of the catalogue parser is an
  association list (the parser tests it for emptiness); \<open>data.get('author')\<close> and
  \<open>data.get('year')\<close> have no default and give \<open>None\<close> for a missing key.\<close>

definition get_or_none :: "(string \<times> string) list \<Rightarrow> string \<Rightarrow> pyval" where
  "get_or_none d k = (case map_of d k of None \<Rightarrow> PNone | Some v \<Rightarrow> PStr v)"

definition get_or :: "(string \<times> string) list \<Rightarrow> string \<Rightarrow> string \<Rightarrow> string" where
  "get_or d k dflt = (case map_of d k of None \<Rightarrow> dflt | Some v \<Rightarrow> v)"

definition extract_tricat :: "(string \<times> string) list \<Rightarrow> (string \<rightharpoonup> pyval)" where
  "extract_tricat d =
     [''A1'' \<mapsto> get_or_none d ''author'',
      ''T1'' \<mapsto> PStr (join '' '' [get_or d ''title'' [], get_or d ''subtitle'' []]),
      ''PY'' \<mapsto> get_or_none d ''year'']"

text \<open>\<open>re.match('(\S\S)\s\s-(.*)', line)\<close>: anchored at the start of the line; the
  dot does not match a line break.\<close>

definition ris_match :: "string \<Rightarrow> (string \<times> string) option" where
  "ris_match line =
     (case line of
        a # b # c # d # e # rest \<Rightarrow>
          if \<not> isspace a \<and> \<not> isspace b \<and> isspace c \<and> isspace d \<and> e = CHR ''-''
          then Some ([a, b], takeWhile (\<lambda>x. x \<noteq> CHR 0x0A) rest)
          else None
      | _ \<Rightarrow> None)"

text \<open>\<open>__extract_ris\<close>: the state of the loop is the dictionary, the current key and
  the current datum; one step per line, and the last section is saved after the loop.\<close>

fun ris_step ::
  "(string \<rightharpoonup> pyval) \<times> string \<times> string \<Rightarrow> string \<Rightarrow> (string \<rightharpoonup> pyval) \<times> string \<times> string"
where
  "ris_step (d, current_key, current_datum) line =
     (case ris_match line of
        Some (k, v) \<Rightarrow>
          ((if current_key \<noteq> [] then d(current_key \<mapsto> PStr current_datum) else d), k, v)
      | None \<Rightarrow> (d, current_key, current_datum @ ''\<newline>'' @ line))"

definition ris_finish :: "(string \<rightharpoonup> pyval) \<times> string \<times> string \<Rightarrow> (string \<rightharpoonup> pyval)" where
  "ris_finish st = (case st of (d, current_key, current_datum) \<Rightarrow> d(current_key \<mapsto> PStr current_datum))"

definition extract_ris :: "string \<Rightarrow> (string \<rightharpoonup> pyval)" where
  "extract_ris text = ris_finish (foldl ris_step (Map.empty, [], []) (split_char CHR 0x0A text))"

text \<open>\<open>__init__\<close>: the argument is a text for \<open>'ris'\<close> and a dictionary for
  \<open>'tricat'\<close>; the other kind of argument fails at its first method call.\<close>

datatype raw = RisText string | TricatData "(string \<times> string) list"

definition LitItem_ris :: "string \<Rightarrow> LitItem" where
  "LitItem_ris text = \<lparr>data = extract_ris text\<rparr>"

definition LitItem_tricat :: "(string \<times> string) list \<Rightarrow> LitItem" where
  "LitItem_tricat d = \<lparr>data = extract_tricat d\<rparr>"

definition LitItem_init :: "raw \<Rightarrow> string \<Rightarrow> error + LitItem" where
  "LitItem_init d data_type =
     (if data_type = ''ris'' then
        (case d of RisText text \<Rightarrow> Inr (LitItem_ris text) | TricatData _ \<Rightarrow> Inl AttributeError)
      else if data_type = ''tricat'' then
        (case d of TricatData m \<Rightarrow> Inr (LitItem_tricat m) | RisText _ \<Rightarrow> Inl AttributeError)
      else Inl InvalidDataTypeError)"

section \<open>Bibliography: the catalogue (tricat) reader\<close>

text \<open>The body of the loop of \<open>__accumulate_tricat_lines\<close> on one line.\<close>

definition accumulate_line :: "string \<Rightarrow> string" where
  "accumulate_line line =
     (let line1 =
        (if startswith (lstrip line) ''Haupttitel'' then replace1 ''Haupttitel'' [] line
         else if startswith (lstrip line) ''Titelzusatz'' then replace1 ''Titelzusatz'' [] line
         else if startswith (lstrip line) ''1. Person'' then replace ''1. Person/Fam.'' [] line
         else line)
      in replace ''\<newline>'' [] (strip line1))"

text \<open>The loop condition is \<open>lines[line_number].strip() and line_number < count\<close>: the
  line is read before the cursor is compared with the count, and reading past the last
  line raises IndexError.\<close>

function accumulate_loop :: "string list \<Rightarrow> nat \<Rightarrow> string list \<Rightarrow> error + string list" where
  "accumulate_loop lines line_number acc =
     (if length lines \<le> line_number then Inl IndexError
      else if strip (lines ! line_number) \<noteq> [] \<and> line_number < length lines then
        accumulate_loop lines (line_number + 1) (acc @ [accumulate_line (lines ! line_number)])
      else Inr acc)"
  by pat_completeness auto
termination
  by (relation "measure (\<lambda>(lines, line_number, acc). length lines - line_number)") auto

declare accumulate_loop.simps [simp del]

definition accumulate_tricat_lines :: "string list \<Rightarrow> nat \<Rightarrow> error + (string \<times> nat)" where
  "accumulate_tricat_lines lines line_number =
     (case accumulate_loop lines line_number [] of
        Inl e \<Rightarrow> Inl e
      | Inr acc \<Rightarrow> Inr (join '' '' acc, length acc))"

text \<open>A line that starts with a label after its leading blanks is not blank, so the
  helper consumes at least that line; the cursor of the reader below therefore advances.\<close>

lemma accumulate_loop_length:
  "accumulate_loop lines n acc = Inr r \<Longrightarrow> strip (lines ! n) \<noteq> [] \<Longrightarrow> length acc < length r"
proof -
  have mono: "\<And>n acc r. accumulate_loop lines n acc = Inr r \<Longrightarrow> length acc \<le> length r"
    subgoal for n acc r
    proof (induction lines n acc arbitrary: r rule: accumulate_loop.induct)
      case (1 lines line_number acc)
      then show ?case
        by (subst (asm) (2) accumulate_loop.simps) (fastforce split: if_splits)
    qed
    done
  assume a: "accumulate_loop lines n acc = Inr r" and b: "strip (lines ! n) \<noteq> []"
  from a b have "accumulate_loop lines (n + 1) (acc @ [accumulate_line (lines ! n)]) = Inr r"
    by (subst (asm) accumulate_loop.simps) (simp split: if_splits)
  from mono[OF this] show ?thesis by simp
qed

lemma startswith_strip:
  "startswith (lstrip line) p \<Longrightarrow> p \<noteq> [] \<Longrightarrow> strip line \<noteq> []"
proof -
  assume a: "startswith (lstrip line) p" and b: "p \<noteq> []"
  from a b have ne: "lstrip line \<noteq> []"
    by (auto simp: startswith_def)
  then have "\<not> isspace (hd (lstrip line))"
    unfolding lstrip_def by (rule hd_dropWhile)
  with ne have "\<exists>x\<in>set (rev (lstrip line)). \<not> isspace x"
    by (metis hd_in_set set_rev)
  then have "dropWhile isspace (rev (lstrip line)) \<noteq> []"
    by (simp add: dropWhile_eq_Nil_conv)
  then show ?thesis by (simp add: strip_def rstrip_def)
qed

lemma accumulate_tricat_lines_offset:
  assumes "accumulate_tricat_lines lines n = Inr (d, offset)"
    and "startswith (lstrip (lines ! n)) p" and "p \<noteq> []"
  shows "0 < offset"
proof -
  from assms(1) obtain acc where acc: "accumulate_loop lines n [] = Inr acc" "offset = length acc"
    by (auto simp: accumulate_tricat_lines_def split: sum.splits)
  from accumulate_loop_length[OF acc(1) startswith_strip[OF assms(2,3)]] acc(2)
  show ?thesis by simp
qed

text \<open>The \<open>while\<close> loop of \<open>__read_tricat_file\<close>: the state is the cursor, the working
  dictionary and the items committed so far. The entry that is open when the scan ends
  is committed after the loop. \<open>LitItem(current_data, data_type='tricat')\<close> is
  \<open>LitItem_tricat\<close>.\<close>

function read_tricat_loop ::
  "string list \<Rightarrow> nat \<Rightarrow> (string \<times> string) list \<Rightarrow> LitItem list \<Rightarrow> error + LitItem list"
where
  "read_tricat_loop all_lines line_number current_data items =
     (if line_number < length all_lines then
        (let line = all_lines ! line_number in
         if startswith (lstrip line) ''Jahr'' then
           read_tricat_loop all_lines (line_number + 1)
             (AList.update ''year'' (strip (replace1 ''Jahr'' [] line)) current_data) items
         else if startswith (lstrip line) ''Haupttitel'' then
           (case accumulate_tricat_lines all_lines line_number of
              Inl e \<Rightarrow> Inl e
            | Inr (d, offset) \<Rightarrow>
                read_tricat_loop all_lines (line_number + offset)
                  (AList.update ''title'' d current_data) items)
         else if startswith (lstrip line) ''Titelzusatz'' then
           (case accumulate_tricat_lines all_lines line_number of
              Inl e \<Rightarrow> Inl e
            | Inr (d, offset) \<Rightarrow>
                read_tricat_loop all_lines (line_number + offset)
                  (AList.update ''subtitle'' d current_data) items)
         else if startswith (lstrip line) ''1. Person'' then
           (if current_data \<noteq> [] then
              (case accumulate_tricat_lines all_lines line_number of
                 Inl e \<Rightarrow> Inl e
               | Inr (d, offset) \<Rightarrow>
                   read_tricat_loop all_lines (line_number + offset)
                     (AList.update ''author'' d []) (items @ [LitItem_tricat current_data]))
            else
              (case accumulate_tricat_lines all_lines line_number of
                 Inl e \<Rightarrow> Inl e
               | Inr (d, offset) \<Rightarrow>
                   read_tricat_loop all_lines (line_number + offset)
                     (AList.update ''author'' d current_data) items))
         else read_tricat_loop all_lines (line_number + 1) current_data items)
      else Inr (items @ [LitItem_tricat current_data]))"
  by pat_completeness auto
termination
  by (relation "measure (\<lambda>(all_lines, line_number, current_data, items).
        length all_lines - line_number)")
    (auto dest: accumulate_tricat_lines_offset)

declare read_tricat_loop.simps [simp del]

text \<open>The file is read as text with universal line breaks; the argument is its
  content.\<close>

definition read_tricat_file :: "string \<Rightarrow> error + LitItem list" where
  "read_tricat_file content = read_tricat_loop (readlines content) 0 [] []"

text \<open>A line that one of the four branches of the reader recognises.\<close>

definition is_label_line :: "string \<Rightarrow> bool" where
  "is_label_line line =
     (startswith (lstrip line) ''Jahr'' \<or> startswith (lstrip line) ''Haupttitel'' \<or>
      startswith (lstrip line) ''Titelzusatz'' \<or> startswith (lstrip line) ''1. Person'')"

text \<open>The derived values of the records of a parse, for stating examples.\<close>

definition relevant_of :: "error + LitItem list \<Rightarrow> error + (error + string \<times> string \<times> string) list" where
  "relevant_of res = (case res of Inl e \<Rightarrow> Inl e | Inr rs \<Rightarrow> Inr (map get_relevant rs))"

section \<open>Bibliography: the operations on a collection\<close>

record Bibliography =
  items :: "LitItem list"

text \<open>\<open>item in xs\<close> on a list compares with \<open>==\<close>, that is \<open>__eq__\<close>, from the left and
  stops at the first match; an exception of the comparison is raised by the test.
  (Python finds an object in a list that holds the very same object without comparing;
  for items whose title can be computed the comparison gives the same answer.)\<close>

fun list_contains :: "LitItem \<Rightarrow> LitItem list \<Rightarrow> error + bool" where
  "list_contains item [] = Inr False"
| "list_contains item (x # xs) =
     (case litem_eq item x of
        Inl e \<Rightarrow> Inl e
      | Inr True \<Rightarrow> Inr True
      | Inr False \<Rightarrow> list_contains item xs)"

text \<open>\<open>unique\<close>: the loop appends to the local list \<open>unique\<close>; \<open>self.items\<close> is only
  read.\<close>

fun unique_loop :: "LitItem list \<Rightarrow> LitItem list \<Rightarrow> error + LitItem list" where
  "unique_loop acc [] = Inr acc"
| "unique_loop acc (item # rest) =
     (case list_contains item acc of
        Inl e \<Rightarrow> Inl e
      | Inr True \<Rightarrow> unique_loop acc rest
      | Inr False \<Rightarrow> unique_loop (acc @ [item]) rest)"

definition unique :: "Bibliography \<Rightarrow> error + Bibliography" where
  "unique self =
     (case unique_loop [] (items self) of
        Inl e \<Rightarrow> Inl e
      | Inr u \<Rightarrow> Inr \<lparr>items = u\<rparr>)"

text \<open>The pair of derived values that \<open>__eq__\<close> compares, and the deduplication in
  the words of the specification: of the items whose key was not seen before, the first
  one is kept. \<open>unique_loop_keep_first\<close> below shows that the loop computes it.\<close>

definition eq_key :: "LitItem \<Rightarrow> (error + string) \<times> string" where
  "eq_key r = (get_title r, get_year r)"

fun keep_first :: "('a \<Rightarrow> 'k) \<Rightarrow> 'k list \<Rightarrow> 'a list \<Rightarrow> 'a list" where
  "keep_first f seen [] = []"
| "keep_first f seen (x # xs) =
     (if f x \<in> set seen then keep_first f seen xs else x # keep_first f (f x # seen) xs)"

text \<open>\<open>sorted(xs, key=f)\<close>: the keys are computed first, one call per item in order (the
  first exception is raised); then the items are put in ascending order of their keys by
  a stable sort. Texts compare lexicographically by code point, which is the order of
  \<^typ>\<open>string\<close> here. The built-in sort is modelled by \<^const>\<open>sort_key\<close>.\<close>

fun keys_of :: "('a \<Rightarrow> error + 'b) \<Rightarrow> 'a list \<Rightarrow> error + 'b list" where
  "keys_of f [] = Inr []"
| "keys_of f (x # xs) =
     (case f x of
        Inl e \<Rightarrow> Inl e
      | Inr k \<Rightarrow> (case keys_of f xs of Inl e \<Rightarrow> Inl e | Inr ks \<Rightarrow> Inr (k # ks)))"

definition sorted_by :: "(LitItem \<Rightarrow> error + string) \<Rightarrow> LitItem list \<Rightarrow> error + LitItem list" where
  "sorted_by f xs =
     (case keys_of f xs of
        Inl e \<Rightarrow> Inl e
      | Inr ks \<Rightarrow> Inr (map snd (sort_key fst (zip ks xs))))"

definition order_by :: "Bibliography \<Rightarrow> string \<Rightarrow> error + Bibliography" where
  "order_by self attr =
     (case (if attr = ''title'' then sorted_by get_title (items self)
            else if attr = ''author'' then sorted_by get_author (items self)
            else if attr = ''year'' then sorted_by (\<lambda>item. Inr (get_year item)) (items self)
            else Inl ValueError) of
        Inl e \<Rightarrow> Inl e
      | Inr sorted_items \<Rightarrow> Inr \<lparr>items = sorted_items\<rparr>)"

text \<open>\<open>__str__\<close> of the collection, and \<open>write_to_file\<close>. The result of
  \<open>write_to_file\<close> is the text written to the file and the exception raised, if any:
  the header is written before \<open>str(self)\<close> is computed. Opening the file is not
  modelled.\<close>

definition bibliography_str :: "Bibliography \<Rightarrow> error + string" where
  "bibliography_str self =
     (case keys_of litem_str (items self) of
        Inl e \<Rightarrow> Inl e
      | Inr strs \<Rightarrow> Inr (join ''\<newline>'' strs))"

definition write_to_file :: "Bibliography \<Rightarrow> string \<Rightarrow> string \<times> error option" where
  "write_to_file self header =
     (let length_str = str_nat (length (items self));
          first = header @ '' ('' @ length_str @ '')\<newline>\<newline>''
      in case bibliography_str self of
           Inl e \<Rightarrow> (first, Some e)
         | Inr body \<Rightarrow> (first @ body, None))"

text \<open>The derived accessor that \<open>order_by\<close> uses as the key for a valid field name.\<close>

definition accessor :: "string \<Rightarrow> LitItem \<Rightarrow> error + string" where
  "accessor attr =
     (if attr = ''title'' then get_title
      else if attr = ''author'' then get_author
      else (\<lambda>item. Inr (get_year item)))"

text \<open>The report in the words of the specification, as a list of lines: the header
  line, an empty line, then the three lines of every record, with one empty line between
  two records. \<open>unlines\<close> ends every line with a line break.\<close>

definition unlines :: "string list \<Rightarrow> string" where
  "unlines ls = concat (map (\<lambda>l. l @ ''\<newline>'') ls)"

fun blocks :: "string list list \<Rightarrow> string list" where
  "blocks [] = []"
| "blocks [b] = b"
| "blocks (b # c # bs) = b @ [[]] @ blocks (c # bs)"

definition record_lines :: "string \<times> string \<times> string \<Rightarrow> string list" where
  "record_lines r = (case r of (a, t, y) \<Rightarrow> [a, t, y])"

definition report_lines :: "string \<Rightarrow> (string \<times> string \<times> string) list \<Rightarrow> string list" where
  "report_lines header rs =
     (header @ '' ('' @ str_nat (length rs) @ '')'') # [] # blocks (map record_lines rs)"

section \<open>Properties of the text operations and the accessors\<close>

lemma replace_char_map:
  "replace [c] [d] s = map (\<lambda>x. if x = c then d else x) s"
proof (induction s)
  case Nil
  show ?case by (subst replace.simps) simp
next
  case (Cons a s)
  show ?case
    by (subst replace.simps) (simp add: startswith_def Cons.IH)
qed

lemma replace_char_filter:
  "replace [c] [] s = filter (\<lambda>x. x \<noteq> c) s"
proof (induction s)
  case Nil
  show ?case by (subst replace.simps) simp
next
  case (Cons a s)
  show ?case
    by (subst replace.simps) (simp add: startswith_def Cons.IH)
qed

lemma collapse_PStr: "collapse (PStr s) = Inr (strip (newlines_to_spaces s))"
  by (simp add: collapse_def newlines_to_spaces_def replace_char_map)

lemma sentinel_title: "strip (newlines_to_spaces ''kein Titel'') = ''kein Titel''"
  by code_simp

lemma sentinel_author: "strip (newlines_to_spaces ''kein Autor'') = ''kein Autor''"
  by code_simp

lemma sentinel_year: "strip (replace '']'' [] (replace ''['' [] ''kein Jahr'')) = ''kein Jahr''"
  by code_simp

lemma strip_Nil: "strip (newlines_to_spaces []) = []"
  by code_simp

text \<open>The tagged-field parser stores texts only, never \<open>None\<close>.\<close>

lemma ris_step_values:
  "(\<forall>k. d k \<noteq> Some PNone) \<Longrightarrow> ris_step (d, ck, cv) line = (d', ck', cv') \<Longrightarrow>
   (\<forall>k. d' k \<noteq> Some PNone)"
  by (auto split: option.splits if_splits)

lemma ris_loop_values:
  "(\<forall>k. fst st k \<noteq> Some PNone) \<Longrightarrow> (\<forall>k. fst (foldl ris_step st ls) k \<noteq> Some PNone)"
proof (induction ls arbitrary: st)
  case Nil
  then show ?case by simp
next
  case (Cons l ls)
  obtain d ck cv where st: "st = (d, ck, cv)" by (cases st) auto
  obtain d' ck' cv' where st': "ris_step (d, ck, cv) l = (d', ck', cv')"
    by (cases "ris_step (d, ck, cv) l") auto
  from Cons.prems st have "\<forall>k. d k \<noteq> Some PNone" by simp
  from ris_step_values[OF this st'] have "\<forall>k. fst (d', ck', cv') k \<noteq> Some PNone" by simp
  from Cons.IH[OF this] show ?case by (simp add: st st' del: ris_step.simps)
qed

lemma extract_ris_values: "extract_ris text k \<noteq> Some PNone"
proof -
  have "\<forall>k. fst (foldl ris_step (Map.empty, [], []) (split_char CHR 0x0A text)) k \<noteq> Some PNone"
    by (rule ris_loop_values) simp
  then show ?thesis
    by (auto simp: extract_ris_def ris_finish_def split: prod.splits)
qed

text \<open>The title of a record can be computed unless its \<open>T1\<close> value is \<open>None\<close>; neither
  constructor stores \<open>None\<close> there.\<close>

lemma get_title_defined:
  "data r ''T1'' \<noteq> Some PNone \<Longrightarrow> \<exists>t. get_title r = Inr t"
  by (cases "data r ''T1''"; cases "the (data r ''T1'')")
     (auto simp: get_title_def dict_get_def collapse_def)

lemma get_title_ris: "\<exists>t. get_title (LitItem_ris text) = Inr t"
  by (rule get_title_defined) (simp add: LitItem_ris_def extract_ris_values)

lemma get_title_tricat: "\<exists>t. get_title (LitItem_tricat d) = Inr t"
  by (rule get_title_defined) (simp add: LitItem_tricat_def extract_tricat_def)

lemma get_author_defined:
  "data r ''A1'' \<noteq> Some PNone \<Longrightarrow> data r ''A2'' \<noteq> Some PNone \<Longrightarrow> \<exists>a. get_author r = Inr a"
  by (cases "data r ''A1''"; cases "the (data r ''A1'')"; cases "data r ''A2''";
      cases "the (data r ''A2'')")
     (auto simp: get_author_def dict_get_def collapse_def)

section \<open>Equality of records\<close>

text \<open>
  Claim C1. Two records whose titles can be computed (every record built by a
  constructor, see \<open>get_title_ris\<close> and \<open>get_title_tricat\<close>) are equal under \<open>__eq__\<close>
  exactly when their derived titles are equal and their derived years are equal. In
  particular two records whose dictionaries agree on every tag other than the author tags
  \<open>A1\<close> and \<open>A2\<close> compare equal.
\<close>

theorem LitItem_eq_title_year:
  assumes "get_title a = Inr ta" and "get_title b = Inr tb"
  shows "litem_eq a b = Inr (ta = tb \<and> get_year a = get_year b) \<and>
         ((\<forall>k. k \<noteq> ''A1'' \<longrightarrow> k \<noteq> ''A2'' \<longrightarrow> data a k = data b k) \<longrightarrow>
            litem_eq a b = Inr True)"
proof -
  have eq: "litem_eq a b = Inr (ta = tb \<and> get_year a = get_year b)"
    using assms by (simp add: litem_eq_def)
  have "litem_eq a b = Inr True"
    if same: "\<forall>k. k \<noteq> ''A1'' \<longrightarrow> k \<noteq> ''A2'' \<longrightarrow> data a k = data b k"
  proof -
    from same have t: "data a ''T1'' = data b ''T1''" and y: "data a ''PY'' = data b ''PY''"
      by simp_all
    from t assms have "ta = tb" by (simp add: get_title_def dict_get_def)
    moreover from y have "get_year a = get_year b" by (simp add: get_year_def dict_get_def)
    ultimately show ?thesis using eq by simp
  qed
  with eq show ?thesis by blast
qed

theorem LitItem_eq_title_year_witness:
  "get_title \<lparr>data = [''T1'' \<mapsto> PStr ''Foo'', ''PY'' \<mapsto> PStr ''2020'',
                       ''A1'' \<mapsto> PStr ''Jane Doe'']\<rparr> = Inr ''Foo'' \<and>
   get_title \<lparr>data = [''T1'' \<mapsto> PStr ''Foo'', ''PY'' \<mapsto> PStr ''2020'',
                       ''A1'' \<mapsto> PStr ''Doe, J.'']\<rparr> = Inr ''Foo'' \<and>
   litem_eq \<lparr>data = [''T1'' \<mapsto> PStr ''Foo'', ''PY'' \<mapsto> PStr ''2020'',
                      ''A1'' \<mapsto> PStr ''Jane Doe'']\<rparr>
            \<lparr>data = [''T1'' \<mapsto> PStr ''Foo'', ''PY'' \<mapsto> PStr ''2020'',
                      ''A1'' \<mapsto> PStr ''Doe, J.'']\<rparr> = Inr True"
proof -
  let ?a = "\<lparr>data = [''T1'' \<mapsto> PStr ''Foo'', ''PY'' \<mapsto> PStr ''2020'',
                     ''A1'' \<mapsto> PStr ''Jane Doe'']\<rparr>"
  let ?b = "\<lparr>data = [''T1'' \<mapsto> PStr ''Foo'', ''PY'' \<mapsto> PStr ''2020'',
                     ''A1'' \<mapsto> PStr ''Doe, J.'']\<rparr>"
  have ta: "get_title ?a = Inr ''Foo''" by code_simp
  have tb: "get_title ?b = Inr ''Foo''" by code_simp
  have same: "\<forall>k. k \<noteq> ''A1'' \<longrightarrow> k \<noteq> ''A2'' \<longrightarrow> data ?a k = data ?b k" by simp
  from LitItem_eq_title_year[OF ta tb] same ta tb show ?thesis by blast
qed

section \<open>Missing fields of a tagged-field entry\<close>

text \<open>
  Claim C2, as the code has it. For every tagged-field (RIS) entry, no accessor raises.
  When the dictionary of the entry has no \<open>PY\<close> tag the derived year is the sentinel
  \<open>kein Jahr\<close>; with no \<open>T1\<close> tag the derived title is \<open>kein Titel\<close>; with neither \<open>A1\<close>
  nor \<open>A2\<close> the derived author is \<open>kein Autor\<close>. The sentinel texts are the German ones
  of the source, not \<open>no year\<close>.
\<close>

theorem ris_missing_fields_sentinels:
  "(data (LitItem_ris text) ''PY'' = None \<longrightarrow> get_year (LitItem_ris text) = ''kein Jahr'') \<and>
   (data (LitItem_ris text) ''T1'' = None \<longrightarrow>
      get_title (LitItem_ris text) = Inr ''kein Titel'') \<and>
   (data (LitItem_ris text) ''A1'' = None \<longrightarrow> data (LitItem_ris text) ''A2'' = None \<longrightarrow>
      get_author (LitItem_ris text) = Inr ''kein Autor'') \<and>
   (\<exists>t. get_title (LitItem_ris text) = Inr t) \<and>
   (\<exists>a. get_author (LitItem_ris text) = Inr a)"
proof -
  have y: "data r ''PY'' = None \<Longrightarrow> get_year r = ''kein Jahr''" for r
    by (simp add: get_year_def dict_get_def sentinel_year)
  have t: "data r ''T1'' = None \<Longrightarrow> get_title r = Inr ''kein Titel''" for r
    by (simp add: get_title_def dict_get_def collapse_PStr sentinel_title)
  have a: "data r ''A1'' = None \<Longrightarrow> data r ''A2'' = None \<Longrightarrow> get_author r = Inr ''kein Autor''"
    for r
    by (simp add: get_author_def dict_get_def collapse_PStr sentinel_author strip_Nil)
  have "\<exists>a. get_author (LitItem_ris text) = Inr a"
    by (rule get_author_defined) (simp_all add: LitItem_ris_def extract_ris_values)
  with y t a get_title_ris show ?thesis by blast
qed

theorem ris_missing_fields_sentinels_witness:
  "data (LitItem_ris ''T1  - Foo'') ''PY'' = None \<and>
   get_year (LitItem_ris ''T1  - Foo'') = ''kein Jahr'' \<and>
   data (LitItem_ris ''T1  - Foo'') ''A1'' = None \<and>
   data (LitItem_ris ''T1  - Foo'') ''A2'' = None \<and>
   get_author (LitItem_ris ''T1  - Foo'') = Inr ''kein Autor'' \<and>
   data (LitItem_ris ''PY  - 2020'') ''T1'' = None \<and>
   get_title (LitItem_ris ''PY  - 2020'') = Inr ''kein Titel''"
proof -
  have py: "data (LitItem_ris ''T1  - Foo'') ''PY'' = None" by code_simp
  have a1: "data (LitItem_ris ''T1  - Foo'') ''A1'' = None" by code_simp
  have a2: "data (LitItem_ris ''T1  - Foo'') ''A2'' = None" by code_simp
  have t1: "data (LitItem_ris ''PY  - 2020'') ''T1'' = None" by code_simp
  from py a1 a2 t1 ris_missing_fields_sentinels[of "''T1  - Foo''"]
    ris_missing_fields_sentinels[of "''PY  - 2020''"]
  show ?thesis by blast
qed

text \<open>The claim as written names the sentinel \<open>no year\<close>; the entry \<open>T1  - Foo\<close> has no
  \<open>PY\<close> tag and its derived year is \<open>kein Jahr\<close>.\<close>

theorem missing_year_sentinel_counterexample:
  "data (LitItem_ris ''T1  - Foo'') ''PY'' = None \<and>
   get_year (LitItem_ris ''T1  - Foo'') = ''kein Jahr'' \<and>
   get_year (LitItem_ris ''T1  - Foo'') \<noteq> ''no year''"
  by code_simp

section \<open>The derived author\<close>

text \<open>
  Claim C6, as the code has it. For every record whose \<open>A1\<close> and \<open>A2\<close> values, where
  present, are texts: the derived author is the primary author field \<open>A1\<close>, line breaks
  turned into blanks and trimmed, when that is not empty; otherwise it is the secondary
  field \<open>A2\<close> with the same normalisation whenever the tag \<open>A2\<close> is present, even when
  the normalised value is empty; and it is the sentinel \<open>kein Autor\<close> only when the tag
  \<open>A2\<close> is absent.
\<close>

theorem get_author_cases:
  assumes "data r ''A1'' \<noteq> Some PNone" and "data r ''A2'' \<noteq> Some PNone"
  shows "get_author r =
     Inr (let primary = (case data r ''A1'' of Some (PStr a) \<Rightarrow> strip (newlines_to_spaces a)
                          | _ \<Rightarrow> [])
          in if primary \<noteq> [] then primary
             else (case data r ''A2'' of Some (PStr b) \<Rightarrow> strip (newlines_to_spaces b)
                   | _ \<Rightarrow> ''kein Autor''))"
  using assms
  by (auto simp: get_author_def dict_get_def collapse_PStr sentinel_author strip_Nil Let_def
           split: option.splits pyval.splits)

theorem get_author_cases_witness:
  "get_author \<lparr>data = [''A1'' \<mapsto> PStr ''  '', ''A2'' \<mapsto> PStr ''Doe,\<newline>Jane '']\<rparr> = Inr ''Doe, Jane'' \<and>
   get_author \<lparr>data = [''A1'' \<mapsto> PStr '' Smith, J.'', ''A2'' \<mapsto> PStr ''Doe'']\<rparr> = Inr ''Smith, J.'' \<and>
   get_author \<lparr>data = [''T1'' \<mapsto> PStr ''Foo'']\<rparr> = Inr ''kein Autor''"
proof -
  let ?r1 = "\<lparr>data = [''A1'' \<mapsto> PStr ''  '', ''A2'' \<mapsto> PStr ''Doe,\<newline>Jane '']\<rparr>"
  let ?r2 = "\<lparr>data = [''A1'' \<mapsto> PStr '' Smith, J.'', ''A2'' \<mapsto> PStr ''Doe'']\<rparr>"
  let ?r3 = "\<lparr>data = [''T1'' \<mapsto> PStr ''Foo'']\<rparr>"
  have s1: "strip (newlines_to_spaces ''  '') = []" by code_simp
  have s2: "strip (newlines_to_spaces ''Doe,\<newline>Jane '') = ''Doe, Jane''" by code_simp
  have s3: "strip (newlines_to_spaces '' Smith, J.'') = ''Smith, J.''" by code_simp
  have "get_author ?r1 = Inr ''Doe, Jane''"
    using get_author_cases[of ?r1] by (simp add: s1 s2)
  moreover have "get_author ?r2 = Inr ''Smith, J.''"
    using get_author_cases[of ?r2] by (simp add: s3)
  moreover have "get_author ?r3 = Inr ''kein Autor''"
    using get_author_cases[of ?r3] by simp
  ultimately show ?thesis by blast
qed

text \<open>The claim as written promises the sentinel \<open>no author\<close> whenever the normalised
  secondary field is empty. The entry \<open>A2  -\<close> has no \<open>A1\<close> and an empty \<open>A2\<close>: its
  derived author is the empty text. The entry \<open>T1  - Foo\<close> has neither tag: its derived
  author is \<open>kein Autor\<close>.\<close>

theorem get_author_blank_secondary_counterexample:
  "data (LitItem_ris ''A2  -'') ''A1'' = None \<and>
   data (LitItem_ris ''A2  -'') ''A2'' = Some (PStr []) \<and>
   get_author (LitItem_ris ''A2  -'') = Inr [] \<and>
   get_author (LitItem_ris ''A2  -'') \<noteq> Inr ''no author'' \<and>
   get_author (LitItem_ris ''T1  - Foo'') = Inr ''kein Autor'' \<and>
   get_author (LitItem_ris ''T1  - Foo'') \<noteq> Inr ''no author''"
  by code_simp

section \<open>Repeated tags in a tagged-field entry\<close>

text \<open>The key of a matching line has two characters, so a section that was started by
  a matching line is saved when the next one starts.\<close>

lemma ris_match_key: "ris_match l = Some (k, v) \<Longrightarrow> k \<noteq> []"
  by (auto simp: ris_match_def split: list.splits if_splits)

lemma ris_other_keys:
  "ck \<noteq> k \<Longrightarrow> \<forall>l\<in>set ls. \<forall>v. ris_match l \<noteq> Some (k, v) \<Longrightarrow>
   ris_finish (foldl ris_step (d, ck, cv) ls) k = d k"
proof (induction ls arbitrary: d ck cv)
  case Nil
  then show ?case by (simp add: ris_finish_def)
next
  case (Cons l ls)
  show ?case
  proof (cases "ris_match l")
    case None
    with Cons show ?thesis by simp
  next
    case (Some kv)
    obtain k' v' where kv: "kv = (k', v')" by (cases kv)
    from Cons.prems Some kv have ne: "k' \<noteq> k" by auto
    from Cons.prems have rest: "\<forall>l\<in>set ls. \<forall>v. ris_match l \<noteq> Some (k, v)" by simp
    show ?thesis
      using Cons.IH[OF ne rest] Cons.prems(1) Some kv by simp
  qed
qed

lemma ris_continuation:
  "\<forall>l\<in>set ls. ris_match l = None \<Longrightarrow>
   foldl ris_step (d, ck, cv) ls = (d, ck, cv @ concat (map (\<lambda>x. ''\<newline>'' @ x) ls))"
  by (induction ls arbitrary: cv) auto

lemma ris_current_key:
  assumes ck: "ck \<noteq> []" and no: "\<forall>l\<in>set ls. \<forall>v. ris_match l \<noteq> Some (ck, v)"
  shows "ris_finish (foldl ris_step (d, ck, cv) ls) ck =
     Some (PStr (cv @ concat (map (\<lambda>x. ''\<newline>'' @ x) (takeWhile (\<lambda>x. ris_match x = None) ls))))"
proof -
  define cont where "cont = takeWhile (\<lambda>x. ris_match x = None) ls"
  define rest where "rest = dropWhile (\<lambda>x. ris_match x = None) ls"
  define cv' where "cv' = cv @ concat (map (\<lambda>x. ''\<newline>'' @ x) cont)"
  have split: "ls = cont @ rest"
    unfolding cont_def rest_def by simp
  have "\<forall>l\<in>set cont. ris_match l = None"
    unfolding cont_def by (auto dest: set_takeWhileD)
  then have c: "foldl ris_step (d, ck, cv) cont = (d, ck, cv')"
    unfolding cv'_def by (rule ris_continuation)
  have step: "foldl ris_step (d, ck, cv) ls = foldl ris_step (d, ck, cv') rest"
    unfolding split foldl_append c ..
  have "ris_finish (foldl ris_step (d, ck, cv') rest) ck = Some (PStr cv')"
  proof (cases rest)
    case Nil
    show ?thesis unfolding Nil by (simp add: ris_finish_def)
  next
    case (Cons m ms)
    have "rest \<noteq> []" unfolding Cons by simp
    then have "\<not> ris_match (hd rest) = None"
      unfolding rest_def by (rule hd_dropWhile)
    then obtain k' v' where m: "ris_match m = Some (k', v')"
      unfolding Cons by auto
    have sub: "set rest \<subseteq> set ls"
      unfolding rest_def by (auto dest: set_dropWhileD)
    then have "m \<in> set ls" and ms: "set ms \<subseteq> set ls"
      unfolding Cons by auto
    with no m have ne: "k' \<noteq> ck" by auto
    from no ms have rest': "\<forall>l\<in>set ms. \<forall>v. ris_match l \<noteq> Some (ck, v)" by auto
    have "ris_finish (foldl ris_step (d(ck \<mapsto> PStr cv'), k', v') ms) ck = (d(ck \<mapsto> PStr cv')) ck"
      by (rule ris_other_keys[OF ne rest'])
    then show ?thesis unfolding Cons using m ck by simp
  qed
  then show ?thesis
    unfolding step cv'_def cont_def .
qed

text \<open>
  Claim C10. When a line \<open>l\<close> of a chunk starts a field with tag \<open>k\<close> and no later line
  of the chunk starts a field with the same tag, the dictionary built by
  \<open>__extract_ris\<close> holds under \<open>k\<close> the value of \<open>l\<close> followed by its continuation
  lines, whatever the lines before \<open>l\<close> are: earlier occurrences of the tag are
  overwritten, and the accessors read the dictionary only.
\<close>

theorem extract_ris_last_occurrence:
  assumes "split_char CHR 0x0A text = pre @ l # post"
    and "ris_match l = Some (k, v)"
    and "\<forall>l'\<in>set post. \<forall>v'. ris_match l' \<noteq> Some (k, v')"
  shows "extract_ris text k =
     Some (PStr (v @ concat (map (\<lambda>x. ''\<newline>'' @ x) (takeWhile (\<lambda>x. ris_match x = None) post))))"
proof -
  obtain d ck cv where st: "foldl ris_step (Map.empty, [], []) pre = (d, ck, cv)"
    by (cases "foldl ris_step (Map.empty, [], []) pre") auto
  define d' where "d' = (if ck \<noteq> [] then d(ck \<mapsto> PStr cv) else d)"
  have "foldl ris_step (Map.empty, [], []) (pre @ l # post) = foldl ris_step (d', k, v) post"
    using st assms(2) by (simp add: d'_def)
  then have "extract_ris text k = ris_finish (foldl ris_step (d', k, v) post) k"
    by (simp add: extract_ris_def assms(1))
  also have "\<dots> = Some (PStr (v @ concat (map (\<lambda>x. ''\<newline>'' @ x) (takeWhile (\<lambda>x. ris_match x = None) post))))"
    by (rule ris_current_key[OF ris_match_key[OF assms(2)] assms(3)])
  finally show ?thesis .
qed


theorem extract_ris_last_occurrence_witness:
  "split_char CHR 0x0A ''T1  - Old\<newline>PY  - 2020\<newline>T1  - New\<newline>title\<newline>A1  - Doe'' =
     [''T1  - Old'', ''PY  - 2020''] @ ''T1  - New'' # [''title'', ''A1  - Doe''] \<and>
   ris_match ''T1  - Old'' = Some (''T1'', '' Old'') \<and>
   ris_match ''T1  - New'' = Some (''T1'', '' New'') \<and>
   extract_ris ''T1  - Old\<newline>PY  - 2020\<newline>T1  - New\<newline>title\<newline>A1  - Doe'' ''T1'' =
     Some (PStr '' New\<newline>title'')"
proof -
  have h1: "split_char CHR 0x0A ''T1  - Old\<newline>PY  - 2020\<newline>T1  - New\<newline>title\<newline>A1  - Doe'' =
     [''T1  - Old'', ''PY  - 2020''] @ ''T1  - New'' # [''title'', ''A1  - Doe'']"
    by code_simp
  have h0: "ris_match ''T1  - Old'' = Some (''T1'', '' Old'')" by code_simp
  have h2: "ris_match ''T1  - New'' = Some (''T1'', '' New'')" by code_simp
  have m1: "ris_match ''title'' = None" by code_simp
  have m2: "ris_match ''A1  - Doe'' = Some (''A1'', '' Doe'')" by code_simp
  have h3: "\<forall>l'\<in>set [''title'', ''A1  - Doe'']. \<forall>v'. ris_match l' \<noteq> Some (''T1'', v')"
    by (simp add: m1 m2)
  have "extract_ris ''T1  - Old\<newline>PY  - 2020\<newline>T1  - New\<newline>title\<newline>A1  - Doe'' ''T1'' =
     Some (PStr '' New\<newline>title'')"
    using extract_ris_last_occurrence[OF h1 h2 h3] by (simp add: m1 m2)
  with h0 h1 h2 show ?thesis by blast
qed

section \<open>The multi-line accumulation helper\<close>

text \<open>The helper returns exactly when some line at or after the starting line is blank;
  it then returns the consumed lines up to that blank line. Otherwise the condition of
  its loop reads the line after the last one.\<close>

lemma accumulate_loop_result:
  "accumulate_loop lines n acc =
     (if \<exists>i\<ge>n. i < length lines \<and> strip (lines ! i) = []
      then Inr (acc @ map accumulate_line (takeWhile (\<lambda>l. strip l \<noteq> []) (drop n lines)))
      else Inl IndexError)"
proof (induction lines n acc rule: accumulate_loop.induct)
  case (1 lines n acc)
  show ?case
  proof (cases "length lines \<le> n")
    case True
    then show ?thesis by (subst accumulate_loop.simps) auto
  next
    case False
    then have lt: "n < length lines" by simp
    have dr: "drop n lines = lines ! n # drop (Suc n) lines"
      using lt by (simp add: Cons_nth_drop_Suc)
    show ?thesis
    proof (cases "strip (lines ! n) = []")
      case True
      then have "accumulate_loop lines n acc = Inr acc"
        using lt by (subst accumulate_loop.simps) simp
      moreover have "\<exists>i\<ge>n. i < length lines \<and> strip (lines ! i) = []"
        using lt True by auto
      ultimately show ?thesis using True by (simp add: dr)
    next
      case nb: False
      have step: "accumulate_loop lines n acc =
          accumulate_loop lines (n + 1) (acc @ [accumulate_line (lines ! n)])"
        using lt nb by (subst accumulate_loop.simps) simp
      have ex: "(\<exists>i\<ge>n. i < length lines \<and> strip (lines ! i) = []) \<longleftrightarrow>
                (\<exists>i\<ge>n + 1. i < length lines \<and> strip (lines ! i) = [])"
      proof
        assume "\<exists>i\<ge>n. i < length lines \<and> strip (lines ! i) = []"
        then obtain i where i: "n \<le> i" "i < length lines" "strip (lines ! i) = []" by blast
        with nb have "i \<noteq> n" by auto
        with i show "\<exists>i\<ge>n + 1. i < length lines \<and> strip (lines ! i) = []"
          by (intro exI[of _ i]) simp
      next
        assume "\<exists>i\<ge>n + 1. i < length lines \<and> strip (lines ! i) = []"
        then obtain i where "n + 1 \<le> i" "i < length lines" "strip (lines ! i) = []" by blast
        then show "\<exists>i\<ge>n. i < length lines \<and> strip (lines ! i) = []"
          by (intro exI[of _ i]) simp
      qed
      have ih: "accumulate_loop lines (n + 1) (acc @ [accumulate_line (lines ! n)]) =
        (if \<exists>i\<ge>n + 1. i < length lines \<and> strip (lines ! i) = []
         then Inr ((acc @ [accumulate_line (lines ! n)]) @
                   map accumulate_line (takeWhile (\<lambda>l. strip l \<noteq> []) (drop (n + 1) lines)))
         else Inl IndexError)"
        using "1.IH" lt nb by simp
      have tw: "takeWhile (\<lambda>l. strip l \<noteq> []) (drop n lines) =
                lines ! n # takeWhile (\<lambda>l. strip l \<noteq> []) (drop (n + 1) lines)"
        using nb by (simp add: dr)
      show ?thesis
      proof (cases "\<exists>i\<ge>n. i < length lines \<and> strip (lines ! i) = []")
        case True
        with ex have "\<exists>i\<ge>n + 1. i < length lines \<and> strip (lines ! i) = []" by blast
        with ih have "accumulate_loop lines (n + 1) (acc @ [accumulate_line (lines ! n)]) =
           Inr ((acc @ [accumulate_line (lines ! n)]) @
                   map accumulate_line (takeWhile (\<lambda>l. strip l \<noteq> []) (drop (n + 1) lines)))"
          by (simp only: if_True)
        with True show ?thesis
          by (simp only: step tw if_True) simp
      next
        case False
        with ex have "\<not> (\<exists>i\<ge>n + 1. i < length lines \<and> strip (lines ! i) = [])" by blast
        with ih have "accumulate_loop lines (n + 1) (acc @ [accumulate_line (lines ! n)]) =
           Inl IndexError"
          by (simp only: if_False)
        with False show ?thesis
          by (simp only: step if_False)
      qed
    qed
  qed
qed

text \<open>
  Claim C4. The claim says that the helper ends normally at a blank line or at the end of
  the input, without reading out of bounds. The code raises IndexError exactly when no
  line from the starting line on is blank, that is whenever the accumulation reaches the
  end of the input; with a blank line it returns the joined fragments and their number
  (\<open>accumulate_tricat_lines_blank\<close>).
\<close>

theorem accumulate_tricat_lines_IndexError:
  "accumulate_tricat_lines lines n = Inl IndexError \<longleftrightarrow>
     (\<forall>i. n \<le> i \<and> i < length lines \<longrightarrow> strip (lines ! i) \<noteq> [])"
  unfolding accumulate_tricat_lines_def accumulate_loop_result by auto

theorem accumulate_tricat_lines_IndexError_witness:
  "accumulate_tricat_lines [''Haupttitel Bar\<newline>''] 0 = Inl IndexError"
proof -
  have nb: "strip ''Haupttitel Bar\<newline>'' \<noteq> []" by code_simp
  have "\<forall>i. 0 \<le> i \<and> i < length [''Haupttitel Bar\<newline>''] \<longrightarrow>
          strip ([''Haupttitel Bar\<newline>''] ! i) \<noteq> []"
    using nb by simp
  then show ?thesis
    using accumulate_tricat_lines_IndexError[of "[''Haupttitel Bar\<newline>'']" 0] by blast
qed


lemma accumulate_tricat_lines_blank:
  assumes "n \<le> j" "j < length lines" "strip (lines ! j) = []"
  shows "accumulate_tricat_lines lines n =
     Inr (join '' '' (map accumulate_line (takeWhile (\<lambda>l. strip l \<noteq> []) (drop n lines))),
          length (takeWhile (\<lambda>l. strip l \<noteq> []) (drop n lines)))"
proof -
  from assms have "\<exists>i\<ge>n. i < length lines \<and> strip (lines ! i) = []" by blast
  then show ?thesis
    unfolding accumulate_tricat_lines_def accumulate_loop_result by simp
qed

section \<open>The catalogue reader\<close>

text \<open>Without a label line the scan only advances, and the empty working dictionary is
  committed after it. Whenever the reader returns, the last record of its result is the
  entry that was open at the end of the scan.\<close>

lemma read_tricat_no_labels:
  "\<forall>l\<in>set ls. \<not> is_label_line l \<Longrightarrow>
   read_tricat_loop ls n cd its = Inr (its @ [LitItem_tricat cd])"
proof (induction "length ls - n" arbitrary: n)
  case 0
  then show ?case by (subst read_tricat_loop.simps) simp
next
  case (Suc k)
  then have lt: "n < length ls" by simp
  then have "ls ! n \<in> set ls" by simp
  with Suc.prems have nl: "\<not> is_label_line (ls ! n)" by blast
  from Suc have "k = length ls - (n + 1)" by simp
  from Suc.hyps(1)[OF this Suc.prems]
  have ih: "read_tricat_loop ls (n + 1) cd its = Inr (its @ [LitItem_tricat cd])" .
  show ?case
    using lt nl ih by (subst read_tricat_loop.simps) (simp add: is_label_line_def Let_def)
qed

lemma read_tricat_commits_last:
  "read_tricat_loop ls n cd its = Inr r \<Longrightarrow> \<exists>cd'. r \<noteq> [] \<and> last r = LitItem_tricat cd'"
proof (induction ls n cd its arbitrary: r rule: read_tricat_loop.induct)
  case (1 all_lines line_number current_data its)
  from "1.prems" show ?case
    apply (subst (asm) read_tricat_loop.simps)
    apply (simp only: Let_def split: if_splits sum.splits prod.splits)
    using "1.IH" apply (auto simp: Let_def)
    done
qed

text \<open>
  Claim C5. After the scan the open entry is committed unconditionally, so a file without
  any label line yields one record, built from the empty dictionary. Its derived title is
  empty and its derived year is the sentinel, but its derived author is not a value:
  \<open>__extract_tricat\<close> stores \<open>None\<close> under \<open>A1\<close> and \<open>get_author\<close> raises
  AttributeError.
\<close>

theorem read_tricat_no_labels_author_raises:
  assumes "\<forall>l\<in>set (readlines content). \<not> is_label_line l"
  shows "read_tricat_file content = Inr [LitItem_tricat []] \<and>
         get_title (LitItem_tricat []) = Inr [] \<and>
         get_year (LitItem_tricat []) = ''kein Jahr'' \<and>
         get_author (LitItem_tricat []) = Inl AttributeError"
proof -
  have "read_tricat_file content = Inr [LitItem_tricat []]"
    unfolding read_tricat_file_def using read_tricat_no_labels[OF assms, of 0 "[]" "[]"] by simp
  moreover have "get_title (LitItem_tricat []) = Inr []" by code_simp
  moreover have "get_year (LitItem_tricat []) = ''kein Jahr''" by code_simp
  moreover have "get_author (LitItem_tricat []) = Inl AttributeError" by code_simp
  ultimately show ?thesis by blast
qed

theorem read_tricat_no_labels_author_raises_witness:
  "readlines [] = [] \<and>
   read_tricat_file [] = Inr [LitItem_tricat []] \<and>
   get_author (LitItem_tricat []) = Inl AttributeError"
proof -
  have "\<forall>l\<in>set (readlines []). \<not> is_label_line l" by simp
  from read_tricat_no_labels_author_raises[OF this] show ?thesis by simp
qed

text \<open>
  Claim C3, as the code has it. The author line starts the entry and carries the full
  label \<open>1. Person/Fam.\<close>; the author field ends at a blank line, as the title does. The
  input \<open>1. Person/Fam. Smith, J.\<close>, blank line, \<open>Jahr 2019\<close>, \<open>Haupttitel Bar\<close>, blank
  line yields one record with author \<open>Smith, J.\<close>, title \<open>Bar\<close> and year \<open>2019\<close>; followed
  by a next author line, that record is committed first.
\<close>

theorem tricat_example:
  "relevant_of (read_tricat_file
      ''1. Person/Fam. Smith, J.\<newline>\<newline>Jahr 2019\<newline>Haupttitel Bar\<newline>\<newline>'') =
     Inr [Inr (''Smith, J.'', ''Bar'', ''2019'')] \<and>
   relevant_of (read_tricat_file
      ''1. Person/Fam. Smith, J.\<newline>\<newline>Jahr 2019\<newline>Haupttitel Bar\<newline>\<newline>1. Person/Fam. Doe, J.\<newline>\<newline>'') =
     Inr [Inr (''Smith, J.'', ''Bar'', ''2019''), Inr (''Doe, J.'', [], ''kein Jahr'')]"
  by code_simp

text \<open>With the author line \<open>1. Person Smith, J.\<close> of the claim the label stays in the
  author value, because only the text \<open>1. Person/Fam.\<close> is removed. In the order of the
  claim (year, title, author) the author line closes the entry of the year and the
  title, whose author then is \<open>None\<close>, or is swallowed by the title when no blank line
  precedes it.\<close>

theorem tricat_example_counterexample:
  "relevant_of (read_tricat_file
      ''1. Person Smith, J.\<newline>\<newline>Jahr 2019\<newline>Haupttitel Bar\<newline>\<newline>'') =
     Inr [Inr (''1. Person Smith, J.'', ''Bar'', ''2019'')] \<and>
   relevant_of (read_tricat_file
      ''Jahr 2019\<newline>Haupttitel Bar\<newline>\<newline>1. Person Smith, J.\<newline>\<newline>'') =
     Inr [Inl AttributeError, Inr (''1. Person Smith, J.'', [], ''kein Jahr'')] \<and>
   relevant_of (read_tricat_file
      ''Jahr 2019\<newline>Haupttitel Bar\<newline>1. Person Smith, J.\<newline>\<newline>'') =
     Inr [Inl AttributeError] \<and>
   relevant_of (read_tricat_file
      ''Jahr 2019\<newline>Haupttitel Bar\<newline>1. Person Smith, J.\<newline>'') = Inl IndexError"
  by code_simp


section \<open>Deduplication\<close>

lemma litem_eq_key:
  "get_title a = Inr ta \<Longrightarrow> get_title b = Inr tb \<Longrightarrow> litem_eq a b = Inr (eq_key a = eq_key b)"
  by (simp add: litem_eq_def eq_key_def)

lemma list_contains_key:
  "get_title x = Inr t \<Longrightarrow> \<forall>a\<in>set acc. \<exists>t. get_title a = Inr t \<Longrightarrow>
   list_contains x acc = Inr (eq_key x \<in> eq_key ` set acc)"
proof (induction acc)
  case Nil
  then show ?case by simp
next
  case (Cons a acc)
  from Cons.prems(2) obtain ta where ta: "get_title a = Inr ta"
    and rest: "\<forall>a\<in>set acc. \<exists>t. get_title a = Inr t"
    by auto
  show ?case
    using Cons.IH[OF Cons.prems(1) rest] litem_eq_key[OF Cons.prems(1) ta]
    by (auto split: bool.splits)
qed

lemma keep_first_seen:
  "set s1 = set s2 \<Longrightarrow> keep_first f s1 xs = keep_first f s2 xs"
proof (induction xs arbitrary: s1 s2)
  case Nil
  show ?case by simp
next
  case (Cons x xs)
  have "keep_first f s1 xs = keep_first f s2 xs"
    by (rule Cons.IH[OF Cons.prems])
  moreover have "keep_first f (f x # s1) xs = keep_first f (f x # s2) xs"
    by (rule Cons.IH) (simp add: Cons.prems)
  ultimately show ?case using Cons.prems by simp
qed

lemma unique_loop_keep_first:
  "\<forall>a\<in>set acc. \<exists>t. get_title a = Inr t \<Longrightarrow> \<forall>a\<in>set xs. \<exists>t. get_title a = Inr t \<Longrightarrow>
   unique_loop acc xs = Inr (acc @ keep_first eq_key (map eq_key acc) xs)"
proof (induction xs arbitrary: acc)
  case Nil
  then show ?case by simp
next
  case (Cons x xs)
  from Cons.prems(2) obtain t where t: "get_title x = Inr t"
    and rest: "\<forall>a\<in>set xs. \<exists>t. get_title a = Inr t"
    by auto
  have c: "list_contains x acc = Inr (eq_key x \<in> eq_key ` set acc)"
    by (rule list_contains_key[OF t Cons.prems(1)])
  show ?case
  proof (cases "eq_key x \<in> eq_key ` set acc")
    case True
    then show ?thesis using c Cons.IH[OF Cons.prems(1) rest] by simp
  next
    case False
    have "\<forall>a\<in>set (acc @ [x]). \<exists>t. get_title a = Inr t"
      using Cons.prems(1) t by simp
    from Cons.IH[OF this rest] False c have
      "unique_loop acc (x # xs) = Inr ((acc @ [x]) @ keep_first eq_key (map eq_key (acc @ [x])) xs)"
      by simp
    moreover have "keep_first eq_key (map eq_key (acc @ [x])) xs =
                   keep_first eq_key (eq_key x # map eq_key acc) xs"
      by (rule keep_first_seen) auto
    ultimately show ?thesis using False by simp
  qed
qed

lemma keep_first_keys:
  "distinct (map f (keep_first f seen xs)) \<and> f ` set (keep_first f seen xs) = f ` set xs - set seen"
  by (induction xs arbitrary: seen) auto

lemma keep_first_subseq: "subseq (keep_first f seen xs) xs"
  by (induction xs arbitrary: seen) auto

lemma keep_first_find:
  "y \<in> set (keep_first f seen xs) \<Longrightarrow> find (\<lambda>x. f x = f y) xs = Some y"
proof (induction xs arbitrary: seen)
  case Nil
  then show ?case by simp
next
  case (Cons x xs)
  show ?case
  proof (cases "f x \<in> set seen")
    case True
    with Cons.prems have y: "y \<in> set (keep_first f seen xs)" by simp
    with keep_first_keys[of f seen xs] have "f y \<notin> set seen" by auto
    with True have "f x \<noteq> f y" by auto
    with Cons.IH[OF y] show ?thesis by simp
  next
    case False
    show ?thesis
    proof (cases "y = x")
      case True
      then show ?thesis by simp
    next
      case ne: False
      with Cons.prems False have y: "y \<in> set (keep_first f (f x # seen) xs)" by simp
      with keep_first_keys[of f "f x # seen" xs] have "f y \<noteq> f x" by auto
      with Cons.IH[OF y] show ?thesis by auto
    qed
  qed
qed


text \<open>
  Claim C7. For every collection whose records have a title that can be computed (every
  record built by a constructor), \<open>unique\<close> returns a collection \<open>u\<close> in which no two
  records at different positions are equal under \<open>__eq__\<close>; every record of the input has
  an equal record in \<open>u\<close>; every record of \<open>u\<close> is the first record of the input that is
  equal to it; and \<open>u\<close> is a subsequence of the input, so the kept records keep their
  relative order. The function only reads its argument and returns a new collection.
\<close>

theorem unique_first_occurrences:
  assumes "\<forall>x\<in>set (items b). \<exists>t. get_title x = Inr t"
  shows "\<exists>u. unique b = Inr \<lparr>items = u\<rparr> \<and>
           (\<forall>i<length u. \<forall>j<length u. i \<noteq> j \<longrightarrow> litem_eq (u ! i) (u ! j) = Inr False) \<and>
           (\<forall>x\<in>set (items b). \<exists>y\<in>set u. litem_eq x y = Inr True) \<and>
           (\<forall>y\<in>set u. find (\<lambda>x. litem_eq x y = Inr True) (items b) = Some y) \<and>
           subseq u (items b)"
proof -
  define u where "u = keep_first eq_key [] (items b)"
  have run: "unique b = Inr \<lparr>items = u\<rparr>"
    using unique_loop_keep_first[of "[]" "items b"] assms by (simp add: unique_def u_def)
  have sub: "subseq u (items b)"
    unfolding u_def by (rule keep_first_subseq)
  have mem: "set u \<subseteq> set (items b)"
  proof
    fix x assume "x \<in> set u"
    with sub obtain y where "y \<in> set (items b)" "x = y" by (rule list_emb_set)
    then show "x \<in> set (items b)" by simp
  qed
  have eq: "litem_eq x y = Inr (eq_key x = eq_key y)" if "x \<in> set (items b)" "y \<in> set (items b)" for x y
  proof -
    from that assms obtain tx ty where "get_title x = Inr tx" "get_title y = Inr ty" by blast
    then show ?thesis by (rule litem_eq_key)
  qed
  have keys: "distinct (map eq_key u)" "eq_key ` set u = eq_key ` set (items b)"
    using keep_first_keys[of eq_key "[]" "items b"] by (simp_all add: u_def)
  have p1: "\<forall>i<length u. \<forall>j<length u. i \<noteq> j \<longrightarrow> litem_eq (u ! i) (u ! j) = Inr False"
  proof (intro allI impI)
    fix i j assume i: "i < length u" and j: "j < length u" and ne: "i \<noteq> j"
    have "eq_key (u ! i) \<noteq> eq_key (u ! j)"
      using nth_eq_iff_index_eq[OF keys(1), of i j] i j ne by simp
    moreover from i j mem have "u ! i \<in> set (items b)" "u ! j \<in> set (items b)"
      by (auto dest: nth_mem)
    ultimately show "litem_eq (u ! i) (u ! j) = Inr False" by (simp add: eq)
  qed
  have p2: "\<forall>x\<in>set (items b). \<exists>y\<in>set u. litem_eq x y = Inr True"
  proof
    fix x assume x: "x \<in> set (items b)"
    then have "eq_key x \<in> eq_key ` set u" using keys(2) by blast
    then obtain y where y: "y \<in> set u" "eq_key x = eq_key y" by blast
    with mem have yb: "y \<in> set (items b)" by blast
    have "litem_eq x y = Inr True" using eq[OF x yb] y(2) by simp
    with y(1) show "\<exists>y\<in>set u. litem_eq x y = Inr True" by blast
  qed
  have p3: "\<forall>y\<in>set u. find (\<lambda>x. litem_eq x y = Inr True) (items b) = Some y"
  proof
    fix y assume y: "y \<in> set u"
    with mem have yb: "y \<in> set (items b)" by blast
    have "find (\<lambda>x. litem_eq x y = Inr True) (items b) = find (\<lambda>x. eq_key x = eq_key y) (items b)"
      by (rule find_cong) (simp_all add: eq yb)
    also have "\<dots> = Some y"
      using y unfolding u_def by (rule keep_first_find)
    finally show "find (\<lambda>x. litem_eq x y = Inr True) (items b) = Some y" .
  qed
  from run p1 p2 p3 sub show ?thesis by blast
qed

theorem unique_first_occurrences_witness:
  "unique \<lparr>items = [LitItem_ris ''T1  - Foo\<newline>PY  - 2020\<newline>A1  - Jane Doe'',
                     LitItem_ris ''T1  - Foo\<newline>PY  - 2020\<newline>A1  - Doe, J.'',
                     LitItem_ris ''T1  - Bar\<newline>PY  - 2019'']\<rparr> =
     Inr \<lparr>items = [LitItem_ris ''T1  - Foo\<newline>PY  - 2020\<newline>A1  - Jane Doe'',
                    LitItem_ris ''T1  - Bar\<newline>PY  - 2019'']\<rparr> \<and>
   litem_eq (LitItem_ris ''T1  - Foo\<newline>PY  - 2020\<newline>A1  - Jane Doe'')
            (LitItem_ris ''T1  - Bar\<newline>PY  - 2019'') = Inr False \<and>
   litem_eq (LitItem_ris ''T1  - Foo\<newline>PY  - 2020\<newline>A1  - Doe, J.'')
            (LitItem_ris ''T1  - Foo\<newline>PY  - 2020\<newline>A1  - Jane Doe'') = Inr True"
proof -
  let ?a = "LitItem_ris ''T1  - Foo\<newline>PY  - 2020\<newline>A1  - Jane Doe''"
  let ?b = "LitItem_ris ''T1  - Foo\<newline>PY  - 2020\<newline>A1  - Doe, J.''"
  let ?c = "LitItem_ris ''T1  - Bar\<newline>PY  - 2019''"
  have ta: "get_title ?a = Inr ''Foo''" by code_simp
  have tb: "get_title ?b = Inr ''Foo''" by code_simp
  have tc: "get_title ?c = Inr ''Bar''" by code_simp
  have ya: "get_year ?a = ''2020''" by code_simp
  have yb: "get_year ?b = ''2020''" by code_simp
  have run: "unique \<lparr>items = [?a, ?b, ?c]\<rparr> = Inr \<lparr>items = [?a, ?c]\<rparr>"
    by (simp add: unique_def litem_eq_def ta tb tc ya yb)
  have hyp: "\<forall>x\<in>set (items \<lparr>items = [?a, ?b, ?c]\<rparr>). \<exists>t. get_title x = Inr t"
    by (simp add: ta tb tc)
  from unique_first_occurrences[OF hyp] obtain u where
    u: "unique \<lparr>items = [?a, ?b, ?c]\<rparr> = Inr \<lparr>items = u\<rparr>"
    and p1: "\<forall>i<length u. \<forall>j<length u. i \<noteq> j \<longrightarrow> litem_eq (u ! i) (u ! j) = Inr False"
    and p3: "\<forall>y\<in>set u. find (\<lambda>x. litem_eq x y = Inr True) (items \<lparr>items = [?a, ?b, ?c]\<rparr>) = Some y"
    by blast
  from u run have u_eq: "u = [?a, ?c]" by simp
  have "litem_eq (u ! 0) (u ! 1) = Inr False"
    by (rule p1[rule_format, of 0 1]) (simp_all add: u_eq)
  then have ac: "litem_eq ?a ?c = Inr False" unfolding u_eq by simp
  have ba: "litem_eq ?b ?a = Inr True"
    by (simp add: litem_eq_def ta tb ya yb)
  from run ac ba show ?thesis by blast
qed


section \<open>Sorting\<close>

text \<open>When the key of every item can be computed, \<open>sorted\<close> is the stable insertion
  sort by that key.\<close>

lemma keys_of_defined:
  "\<forall>x\<in>set xs. f x = Inr (g x) \<Longrightarrow> keys_of f xs = Inr (map g xs)"
  by (induction xs) auto

lemma insort_decorated:
  "\<forall>p\<in>set ps. fst p = g (snd p) \<Longrightarrow>
   map snd (insort_key fst (g x, x) ps) = insort_key g x (map snd ps)"
  by (induction ps) auto

lemma sort_decorated:
  "map snd (sort_key fst (zip (map g xs) xs)) = sort_key g xs"
proof (induction xs)
  case Nil
  show ?case by simp
next
  case (Cons x xs)
  have "\<forall>p\<in>set (sort_key fst (zip (map g xs) xs)). fst p = g (snd p)"
    by (auto simp: in_set_zip)
  from insort_decorated[OF this] Cons.IH show ?case by simp
qed

lemma sorted_by_defined:
  "\<forall>x\<in>set xs. f x = Inr (g x) \<Longrightarrow> sorted_by f xs = Inr (sort_key g xs)"
  using keys_of_defined[of xs f g] by (simp add: sorted_by_def sort_decorated)

lemma order_by_invalid:
  "attr \<noteq> ''title'' \<Longrightarrow> attr \<noteq> ''author'' \<Longrightarrow> attr \<noteq> ''year'' \<Longrightarrow>
   order_by b attr = Inl ValueError"
  by (simp add: order_by_def)

lemma order_by_accessor:
  "attr = ''title'' \<or> attr = ''author'' \<or> attr = ''year'' \<Longrightarrow>
   order_by b attr =
     (case sorted_by (accessor attr) (items b) of Inl e \<Rightarrow> Inl e | Inr s \<Rightarrow> Inr \<lparr>items = s\<rparr>)"
  by (auto simp: order_by_def accessor_def)

text \<open>For a valid field name and a collection on which the chosen accessor is defined,
  the result is in non-decreasing order of the accessor values, is a rearrangement of
  the input and keeps records with equal keys in their original order.\<close>

lemma order_by_sorted_stable:
  assumes attr: "attr = ''title'' \<or> attr = ''author'' \<or> attr = ''year''"
    and keys: "\<forall>x\<in>set (items b). \<exists>k. accessor attr x = Inr k"
  shows "\<exists>s ks. order_by b attr = Inr \<lparr>items = s\<rparr> \<and>
           keys_of (accessor attr) s = Inr ks \<and> sorted ks \<and>
           length s = length (items b) \<and> set s = set (items b) \<and>
           (\<forall>k. filter (\<lambda>x. accessor attr x = Inr k) s =
                filter (\<lambda>x. accessor attr x = Inr k) (items b))"
proof -
  define g where "g = (\<lambda>x. case accessor attr x of Inr k \<Rightarrow> k | Inl _ \<Rightarrow> [])"
  define s where "s = sort_key g (items b)"
  have fg: "\<forall>x\<in>set (items b). accessor attr x = Inr (g x)"
    using keys by (auto simp: g_def)
  have run: "order_by b attr = Inr \<lparr>items = s\<rparr>"
    using order_by_accessor[OF attr] sorted_by_defined[OF fg] by (simp add: s_def)
  have set_s: "set s = set (items b)" by (simp add: s_def)
  with fg have "\<forall>x\<in>set s. accessor attr x = Inr (g x)" by simp
  then have ks: "keys_of (accessor attr) s = Inr (map g s)" by (rule keys_of_defined)
  have srt: "sorted (map g s)" by (simp add: s_def)
  have len: "length s = length (items b)" by (simp add: s_def)
  have stable: "filter (\<lambda>x. accessor attr x = Inr k) s =
                filter (\<lambda>x. accessor attr x = Inr k) (items b)" for k
  proof -
    have "filter (\<lambda>x. accessor attr x = Inr k) s = filter (\<lambda>x. g x = k) s"
      by (rule filter_cong) (use fg set_s in auto)
    also have "\<dots> = filter (\<lambda>x. g x = k) (items b)"
      unfolding s_def by (rule sort_key_stable)
    also have "\<dots> = filter (\<lambda>x. accessor attr x = Inr k) (items b)"
      by (rule filter_cong) (use fg in auto)
    finally show ?thesis .
  qed
  from run ks srt len set_s stable show ?thesis by blast
qed

text \<open>
  Claim C8. The claim holds for the field names \<open>title\<close> and \<open>year\<close>, for an invalid
  field name (\<open>order_by_invalid\<close>), and for \<open>author\<close> on collections whose records all
  have an author text (\<open>order_by_sorted_stable\<close>). The catalogue reader builds records
  whose \<open>A1\<close> value is \<open>None\<close> (the record of a file without label lines, \<open>LitItem_tricat []\<close>,
  is one): sorting such a collection by author raises AttributeError, while sorting it by
  title returns it.
\<close>

theorem order_by_author_raises:
  "order_by \<lparr>items = [LitItem_tricat []]\<rparr> ''author'' = Inl AttributeError \<and>
   order_by \<lparr>items = [LitItem_tricat []]\<rparr> ''title'' = Inr \<lparr>items = [LitItem_tricat []]\<rparr>"
proof -
  have a: "get_author (LitItem_tricat []) = Inl AttributeError" by code_simp
  have t: "get_title (LitItem_tricat []) = Inr []" by code_simp
  show ?thesis by (simp add: order_by_def sorted_by_def a t)
qed


section \<open>The report\<close>

lemma unlines_append: "unlines (xs @ ys) = unlines xs @ unlines ys"
  by (simp add: unlines_def)

lemma litem_str_relevant:
  "get_relevant x = Inr r \<Longrightarrow> litem_str x = Inr (unlines (record_lines r))"
  by (auto simp: get_relevant_def litem_str_def unlines_def record_lines_def split: sum.splits)

lemma keys_of_str:
  "keys_of get_relevant xs = Inr rs \<Longrightarrow>
   keys_of litem_str xs = Inr (map (\<lambda>r. unlines (record_lines r)) rs)"
proof (induction xs arbitrary: rs)
  case Nil
  then show ?case by auto
next
  case (Cons x xs)
  from Cons.prems obtain r rs' where r: "get_relevant x = Inr r"
    and rs': "keys_of get_relevant xs = Inr rs'" and rs: "rs = r # rs'"
    by (auto split: sum.splits)
  show ?case
    using Cons.IH[OF rs'] litem_str_relevant[OF r] by (simp add: rs)
qed

lemma keys_of_length: "keys_of f xs = Inr rs \<Longrightarrow> length rs = length xs"
  by (induction xs arbitrary: rs) (auto split: sum.splits)

lemma join_blocks:
  "join ''\<newline>'' (map unlines bs) = unlines (blocks bs)"
proof (induction bs rule: blocks.induct)
  case 1
  show ?case by (simp add: unlines_def)
next
  case (2 b)
  show ?case by simp
next
  case (3 b c bs)
  then show ?case by (simp add: unlines_append) (simp add: unlines_def)
qed

lemma set_strip: "set (strip s) \<subseteq> set s"
  by (auto simp: strip_def rstrip_def lstrip_def dest!: set_dropWhileD)

lemma collapse_no_newline: "collapse v = Inr s \<Longrightarrow> CHR 0x0A \<notin> set s"
proof -
  assume "collapse v = Inr s"
  then obtain x where "s = strip (newlines_to_spaces x)"
    by (cases v) (auto simp: collapse_PStr, simp add: collapse_def)
  moreover have "CHR 0x0A \<notin> set (newlines_to_spaces x)"
    by (auto simp: newlines_to_spaces_def)
  ultimately show ?thesis using set_strip by blast
qed

lemma get_relevant_no_newline:
  "get_relevant x = Inr (a, t, y) \<Longrightarrow> CHR 0x0A \<notin> set a \<and> CHR 0x0A \<notin> set t"
  by (auto simp: get_relevant_def get_author_def get_title_def split: sum.splits if_splits
           dest: collapse_no_newline)

lemma keys_of_relevant_no_newline:
  "keys_of get_relevant xs = Inr rs \<Longrightarrow>
   \<forall>r\<in>set rs. CHR 0x0A \<notin> set (fst r) \<and> CHR 0x0A \<notin> set (fst (snd r))"
proof (induction xs arbitrary: rs)
  case Nil
  then show ?case by auto
next
  case (Cons x xs)
  from Cons.prems obtain r rs' where r: "get_relevant x = Inr r"
    and rs': "keys_of get_relevant xs = Inr rs'" and rs: "rs = r # rs'"
    by (auto split: sum.splits)
  obtain a t y where "r = (a, t, y)" by (cases r)
  with get_relevant_no_newline[of x a t y] r
  have "CHR 0x0A \<notin> set (fst r) \<and> CHR 0x0A \<notin> set (fst (snd r))" by simp
  with Cons.IH[OF rs'] show ?case by (simp add: rs)
qed

text \<open>
  Claim C9, as the code has it. For every collection whose records all have computable
  derived values \<open>rs\<close> (author, title, year), the text written is the header line
  \<open>header (count)\<close>, an empty line, and for each record in order its author, title and
  year, each ended by a line break, with one empty line between consecutive records and
  none after the last record; nothing is raised. Author and title hold no line break, so
  each is one line (the year is written as it is).
\<close>

theorem write_to_file_report:
  assumes "keys_of get_relevant (items b) = Inr rs"
  shows "write_to_file b header = (unlines (report_lines header rs), None) \<and>
         (\<forall>r\<in>set rs. CHR 0x0A \<notin> set (fst r) \<and> CHR 0x0A \<notin> set (fst (snd r)))"
proof -
  have "bibliography_str b = Inr (join ''\<newline>'' (map unlines (map record_lines rs)))"
    using keys_of_str[OF assms] by (simp add: bibliography_str_def comp_def)
  then have "bibliography_str b = Inr (unlines (blocks (map record_lines rs)))"
    by (simp only: join_blocks)
  then have "write_to_file b header = (unlines (report_lines header rs), None)"
    using keys_of_length[OF assms]
    by (simp add: write_to_file_def report_lines_def Let_def unlines_def)
  with keys_of_relevant_no_newline[OF assms] show ?thesis by blast
qed

theorem write_to_file_report_witness:
  "keys_of get_relevant
     (items \<lparr>items = [LitItem_ris ''T1  - Foo\<newline>PY  - 2020\<newline>A1  - Jane Doe'',
                       LitItem_ris ''T1  - Bar'']\<rparr>) =
     Inr [(''Jane Doe'', ''Foo'', ''2020''), (''kein Autor'', ''Bar'', ''kein Jahr'')] \<and>
   write_to_file \<lparr>items = [LitItem_ris ''T1  - Foo\<newline>PY  - 2020\<newline>A1  - Jane Doe'',
                            LitItem_ris ''T1  - Bar'']\<rparr> ''X'' =
     (''X (2)\<newline>\<newline>Jane Doe\<newline>Foo\<newline>2020\<newline>\<newline>kein Autor\<newline>Bar\<newline>kein Jahr\<newline>'', None) \<and>
   keys_of get_relevant (items \<lparr>items = []\<rparr>) = Inr [] \<and>
   write_to_file \<lparr>items = []\<rparr> ''X'' = (''X (0)\<newline>\<newline>'', None)"
proof -
  let ?a = "LitItem_ris ''T1  - Foo\<newline>PY  - 2020\<newline>A1  - Jane Doe''"
  let ?c = "LitItem_ris ''T1  - Bar''"
  have ra: "get_relevant ?a = Inr (''Jane Doe'', ''Foo'', ''2020'')" by code_simp
  have rc: "get_relevant ?c = Inr (''kein Autor'', ''Bar'', ''kein Jahr'')" by code_simp
  have h: "keys_of get_relevant (items \<lparr>items = [?a, ?c]\<rparr>) =
      Inr [(''Jane Doe'', ''Foo'', ''2020''), (''kein Autor'', ''Bar'', ''kein Jahr'')]"
    by (simp add: ra rc)
  have h0: "keys_of get_relevant (items \<lparr>items = []\<rparr>) = Inr []" by simp
  have l2: "unlines (report_lines ''X'' [(''Jane Doe'', ''Foo'', ''2020''), (''kein Autor'', ''Bar'', ''kein Jahr'')]) =
      ''X (2)\<newline>\<newline>Jane Doe\<newline>Foo\<newline>2020\<newline>\<newline>kein Autor\<newline>Bar\<newline>kein Jahr\<newline>''"
    by code_simp
  have l0: "unlines (report_lines ''X'' []) = ''X (0)\<newline>\<newline>''" by code_simp
  have w2: "write_to_file \<lparr>items = [?a, ?c]\<rparr> ''X'' =
     (''X (2)\<newline>\<newline>Jane Doe\<newline>Foo\<newline>2020\<newline>\<newline>kein Autor\<newline>Bar\<newline>kein Jahr\<newline>'', None)"
    using write_to_file_report[OF h, of "''X''", THEN conjunct1] by (simp only: l2)
  have w0: "write_to_file \<lparr>items = []\<rparr> ''X'' = (''X (0)\<newline>\<newline>'', None)"
    using write_to_file_report[OF h0, of "''X''", THEN conjunct1] by (simp only: l0)
  from conjI[OF h conjI[OF w2 conjI[OF h0 w0]]] show ?thesis .
qed

text \<open>For a collection of one record the claim as written puts an empty line after the
  three lines of the record; the text written ends with the line of the year.\<close>

theorem write_to_file_last_record_counterexample:
  "fst (write_to_file \<lparr>items = [LitItem_ris ''T1  - Foo\<newline>PY  - 2020\<newline>A1  - Jane Doe'']\<rparr> ''X'') =
     ''X (1)\<newline>\<newline>Jane Doe\<newline>Foo\<newline>2020\<newline>'' \<and>
   fst (write_to_file \<lparr>items = [LitItem_ris ''T1  - Foo\<newline>PY  - 2020\<newline>A1  - Jane Doe'']\<rparr> ''X'') \<noteq>
     ''X (1)\<newline>\<newline>Jane Doe\<newline>Foo\<newline>2020\<newline>\<newline>''"
  by code_simp


end
